theory Spec2Isabelle
  imports Main
begin

section \<open>Naive string search visualizer (Lab3.py)\<close>

text \<open>
  A shallow embedding of \<^verbatim>\<open>Lab Questions/Lab3.py\<close>: the step generator
  \<^verbatim>\<open>naive_search_steps\<close>, the highlighting policy of \<^verbatim>\<open>render_visual\<close>,
  \<^verbatim>\<open>status_text\<close>, and the button handlers that walk the step list.

  Python strings are sequences of code points; they are modelled as lists over an
  arbitrary character type \<open>'c\<close>, which \<open>string\<close> instantiates. Python integers are
  \<open>int\<close>; the loop counters produced by \<^verbatim>\<open>range\<close> are \<open>nat\<close> and are converted
  where they are stored in a step.
\<close>

subsection \<open>Errors and indexing\<close>

datatype error = IndexError

text \<open>Subscripting a Python sequence with an integer: an index in \<open>[0, len)\<close> reads
  that element, an index in \<open>[-len, 0)\<close> reads from the back, and every other index
  raises \<^verbatim>\<open>IndexError\<close>.\<close>

definition py_index :: "'a list \<Rightarrow> int \<Rightarrow> error + 'a" where
  "py_index xs i =
     (if 0 \<le> i \<and> i < int (length xs) then Inr (xs ! nat i)
      else if - int (length xs) \<le> i \<and> i < 0 then Inr (xs ! nat (int (length xs) + i))
      else Inl IndexError)"

subsection \<open>Steps\<close>

text \<open>A step is the dict built by the generator. The key \<^verbatim>\<open>match\<close> holds
  \<^verbatim>\<open>None\<close> (about to compare), \<^verbatim>\<open>False\<close> (mismatch) or \<^verbatim>\<open>True\<close>
  (full match).\<close>

record step =
  text_idx :: int
  pattern_idx :: int
  shift :: int
  match :: "bool option"
  found_indices :: "int list"

subsection \<open>The step generator\<close>

text \<open>The inner \<^verbatim>\<open>for j in range(m)\<close> loop at shift \<open>i\<close>, run over the remaining
  values of \<open>j\<close>, with the list \<open>steps\<close> threaded through. The Boolean result says
  whether the loop was left by \<^verbatim>\<open>break\<close>.\<close>

fun inner_loop ::
  "'c list \<Rightarrow> 'c list \<Rightarrow> nat \<Rightarrow> nat list \<Rightarrow> step list \<Rightarrow> error + (step list \<times> bool)" where
  "inner_loop text pattern i [] steps = Inr (steps, False)"
| "inner_loop text pattern i (j # js) steps =
     (let steps1 = steps @ [\<lparr>text_idx = int (i + j), pattern_idx = int j, shift = int i,
                              match = None, found_indices = []\<rparr>]
      in case py_index text (int (i + j)) of
           Inl e \<Rightarrow> Inl e
         | Inr a \<Rightarrow>
             (case py_index pattern (int j) of
                Inl e \<Rightarrow> Inl e
              | Inr b \<Rightarrow>
                  if a \<noteq> b
                  then Inr (steps1 @ [\<lparr>text_idx = int (i + j), pattern_idx = int j,
                                        shift = int i, match = Some False,
                                        found_indices = []\<rparr>], True)
                  else inner_loop text pattern i js steps1))"

text \<open>The outer \<^verbatim>\<open>for i in range(n - m + 1)\<close> loop; the \<^verbatim>\<open>else\<close> branch of the
  inner loop runs when it was not left by \<^verbatim>\<open>break\<close>.\<close>

fun outer_loop ::
  "'c list \<Rightarrow> 'c list \<Rightarrow> nat \<Rightarrow> nat list \<Rightarrow> step list \<Rightarrow> error + step list" where
  "outer_loop text pattern m [] steps = Inr steps"
| "outer_loop text pattern m (i # is) steps =
     (case inner_loop text pattern i [0..<m] steps of
        Inl e \<Rightarrow> Inl e
      | Inr (steps1, broke) \<Rightarrow>
          outer_loop text pattern m is
            (if broke then steps1
             else steps1 @ [\<lparr>text_idx = int i + int m - 1, pattern_idx = int m - 1,
                              shift = int i, match = Some True,
                              found_indices = [int i]\<rparr>]))"

definition naive_search_steps :: "'c list \<Rightarrow> 'c list \<Rightarrow> error + step list" where
  "naive_search_steps text pattern =
     (let n = length text; m = length pattern; steps = []
      in if m = 0 \<or> n < m then Inr steps
         else outer_loop text pattern m [0..<n - m + 1] steps)"

subsection \<open>The reference trace of the naive algorithm\<close>

text \<open>The three kinds of step, as the specification names them: a Pending step and a
  Mismatch step at shift \<open>i\<close> and offset \<open>j\<close>, and the FullMatch step of shift \<open>i\<close>
  for a pattern of length \<open>m\<close>.\<close>

definition pending_step :: "nat \<Rightarrow> nat \<Rightarrow> step" where
  "pending_step i j =
     \<lparr>text_idx = int i + int j, pattern_idx = int j, shift = int i,
      match = None, found_indices = []\<rparr>"

definition mismatch_step :: "nat \<Rightarrow> nat \<Rightarrow> step" where
  "mismatch_step i j =
     \<lparr>text_idx = int i + int j, pattern_idx = int j, shift = int i,
      match = Some False, found_indices = []\<rparr>"

definition full_match_step :: "nat \<Rightarrow> nat \<Rightarrow> step" where
  "full_match_step i m =
     \<lparr>text_idx = int i + int m - 1, pattern_idx = int m - 1, shift = int i,
      match = Some True, found_indices = [int i]\<rparr>"

text \<open>The trace of one shift \<open>i\<close>, from offset \<open>j\<close> upward, in the words of the
  specification: a Pending step for the offset; on unequal characters a Mismatch step,
  after which the shift is abandoned; one FullMatch step once every offset has compared
  equal.\<close>

function reference_shift_trace :: "'c list \<Rightarrow> 'c list \<Rightarrow> nat \<Rightarrow> nat \<Rightarrow> step list" where
  "reference_shift_trace text pattern i j =
     (if length pattern \<le> j then [full_match_step i (length pattern)]
      else pending_step i j #
           (if text ! (i + j) \<noteq> pattern ! j then [mismatch_step i j]
            else reference_shift_trace text pattern i (Suc j)))"
  by pat_completeness auto
termination
  by (relation "measure (\<lambda>(text, pattern, i, j). length pattern - j)") auto

definition reference_trace :: "'c list \<Rightarrow> 'c list \<Rightarrow> step list" where
  "reference_trace text pattern =
     concat (map (\<lambda>i. reference_shift_trace text pattern i 0)
                 [0..<length text - length pattern + 1])"

text \<open>The same trace in closed form: with \<open>k\<close> the first offset at which the characters
  differ, shift \<open>i\<close> contributes the Pending steps of offsets \<open>0..k\<close> and the Mismatch
  step of offset \<open>k\<close>; when there is no such offset it contributes the Pending steps of
  all offsets and the FullMatch step.\<close>

definition first_mismatch :: "'c list \<Rightarrow> 'c list \<Rightarrow> nat \<Rightarrow> nat option" where
  "first_mismatch text pattern i =
     find (\<lambda>j. text ! (i + j) \<noteq> pattern ! j) [0..<length pattern]"

definition shift_block :: "'c list \<Rightarrow> 'c list \<Rightarrow> nat \<Rightarrow> step list" where
  "shift_block text pattern i =
     (case first_mismatch text pattern i of
        None \<Rightarrow> map (pending_step i) [0..<length pattern]
                 @ [full_match_step i (length pattern)]
      | Some k \<Rightarrow> map (pending_step i) [0..<Suc k] @ [mismatch_step i k])"

subsection \<open>Vocabulary for statements about traces\<close>

text \<open>An occurrence of the pattern at index \<open>i\<close>: the slice
  \<^verbatim>\<open>text[i : i + len(pattern)]\<close> equals the pattern.\<close>

definition occurs_at :: "'c list \<Rightarrow> 'c list \<Rightarrow> nat \<Rightarrow> bool" where
  "occurs_at text pattern i = (take (length pattern) (drop i text) = pattern)"

definition pending_steps :: "step list \<Rightarrow> step list" where
  "pending_steps steps = filter (\<lambda>s. match s = None) steps"

definition pending_mismatch_steps :: "step list \<Rightarrow> step list" where
  "pending_mismatch_steps steps = filter (\<lambda>s. match s = None \<or> match s = Some False) steps"

definition mismatch_steps :: "step list \<Rightarrow> step list" where
  "mismatch_steps steps = filter (\<lambda>s. match s = Some False) steps"

definition full_match_steps :: "step list \<Rightarrow> step list" where
  "full_match_steps steps = filter (\<lambda>s. match s = Some True) steps"

definition steps_with_shift :: "int \<Rightarrow> step list \<Rightarrow> step list" where
  "steps_with_shift v steps = filter (\<lambda>s. shift s = v) steps"

subsection \<open>The status line\<close>

text \<open>\<^verbatim>\<open>status_text\<close> formats one of four messages. The model keeps which message it
  is and the numbers formatted into it; the full-match branch subscripts the step's
  \<^verbatim>\<open>found_indices\<close> with 0, which raises on an empty list.\<close>

datatype status_line =
    Ready
  | Shifting_comparing int int int
  | Mismatch_shifting int int
  | Pattern_found int

definition status_text :: "step option \<Rightarrow> int list \<Rightarrow> nat \<Rightarrow> error + status_line" where
  "status_text step found pattern_len =
     (case step of
        None \<Rightarrow> Inr Ready
      | Some st \<Rightarrow>
          (case match st of
             None \<Rightarrow> Inr (Shifting_comparing (shift st) (pattern_idx st) (text_idx st))
           | Some False \<Rightarrow> Inr (Mismatch_shifting (text_idx st) (pattern_idx st))
           | Some True \<Rightarrow>
               (case py_index (found_indices st) 0 of
                  Inl e \<Rightarrow> Inl e
                | Inr idx \<Rightarrow> Inr (Pattern_found idx))))"

subsection \<open>Rendering\<close>

text \<open>\<^verbatim>\<open>render_visual\<close> builds an HTML grid. The model keeps, for every box of the
  pattern row (row 2) and of the text row (row 3), its grid column, its list of CSS
  classes and its character; the index labels of rows 1 and 4, which carry no highlight,
  and the HTML text around the boxes are left out.\<close>

record 'c box =
  grid_row :: nat
  grid_column :: int
  classes :: "string list"
  box_char :: 'c

definition previously_found_positions :: "nat \<Rightarrow> int list \<Rightarrow> int set" where
  "previously_found_positions m found_indices_so_far =
     (\<Union>fi\<in>set found_indices_so_far. (\<lambda>k. fi + int k) ` {0..<m})"

definition current_match_positions :: "nat \<Rightarrow> bool option \<Rightarrow> int list \<Rightarrow> error + int set" where
  "current_match_positions m match_status step_found =
     (if match_status = Some True \<and> step_found \<noteq> []
      then (case py_index step_found 0 of
              Inl e \<Rightarrow> Inl e
            | Inr fi \<Rightarrow> Inr ((\<lambda>k. fi + int k) ` {0..<m}))
      else Inr {})"

text \<open>The class list of the pattern box at offset \<open>i\<close> (row 2). The step's pattern and
  text index are absent when no step is shown.\<close>

definition pattern_box_classes :: "bool option \<Rightarrow> int option \<Rightarrow> nat \<Rightarrow> string list" where
  "pattern_box_classes match_status cur_pattern_idx i =
     (let classes0 = [''char'']
      in if match_status = None \<and> Some (int i) = cur_pattern_idx
         then classes0 @ [''comparing'']
         else if match_status = Some False \<and> Some (int i) = cur_pattern_idx
         then classes0 @ [''mismatch'']
         else if match_status = Some True
         then classes0 @ [''match'']
         else classes0)"

text \<open>The class list of the text box at index \<open>i\<close> (row 3): first
  \<^verbatim>\<open>found\<close> is appended for a previously found position, then the list is replaced
  when the current step applies to the box.\<close>

definition text_box_classes ::
  "int set \<Rightarrow> int set \<Rightarrow> bool option \<Rightarrow> int option \<Rightarrow> nat \<Rightarrow> string list" where
  "text_box_classes previously_found current_match match_status cur_text_idx i =
     (let classes0 = [''char''];
          classes1 = (if int i \<in> previously_found then classes0 @ [''found''] else classes0)
      in if match_status = None \<and> Some (int i) = cur_text_idx
         then [''char'', ''comparing'']
         else if match_status = Some False \<and> Some (int i) = cur_text_idx
         then [''char'', ''mismatch'']
         else if match_status = Some True \<and> int i \<in> current_match
         then [''char'', ''match'']
         else classes1)"

definition render_visual ::
  "'c list \<Rightarrow> 'c list \<Rightarrow> step option \<Rightarrow> int list \<Rightarrow> error + ('c box list \<times> 'c box list)" where
  "render_visual text pattern step found_indices_so_far =
     (let n = length text;
          m = length pattern;
          cur_shift = (case step of None \<Rightarrow> 0 | Some st \<Rightarrow> shift st);
          match_status = (case step of None \<Rightarrow> None | Some st \<Rightarrow> match st);
          cur_text_idx = (case step of None \<Rightarrow> None | Some st \<Rightarrow> Some (text_idx st));
          cur_pattern_idx = (case step of None \<Rightarrow> None | Some st \<Rightarrow> Some (pattern_idx st));
          step_found = (case step of None \<Rightarrow> [] | Some st \<Rightarrow> found_indices st);
          previously_found = previously_found_positions m found_indices_so_far
      in case current_match_positions m match_status step_found of
           Inl e \<Rightarrow> Inl e
         | Inr current_match \<Rightarrow>
             Inr (map (\<lambda>(i, ch).
                        \<lparr>grid_row = 2, grid_column = cur_shift + int i + 1,
                         classes = pattern_box_classes match_status cur_pattern_idx i,
                         box_char = ch\<rparr>)
                      (filter (\<lambda>(i, ch). 1 \<le> cur_shift + int i + 1
                                         \<and> cur_shift + int i + 1 \<le> int n)
                              (enumerate 0 pattern)),
                  map (\<lambda>(i, ch).
                        \<lparr>grid_row = 3, grid_column = int i + 1,
                         classes = text_box_classes previously_found current_match
                                     match_status cur_text_idx i,
                         box_char = ch\<rparr>)
                      (enumerate 0 text)))"

subsection \<open>The highlighting policy of the specification\<close>

datatype outcome = Pending | Mismatch | FullMatch

definition outcome :: "step \<Rightarrow> outcome" where
  "outcome st = (case match st of None \<Rightarrow> Pending | Some False \<Rightarrow> Mismatch | Some True \<Rightarrow> FullMatch)"

datatype highlight = Default | Comparing | MismatchHL | MatchHL | Found

text \<open>The CSS classes that draw a highlight; \<^verbatim>\<open>char\<close> alone is the default style.\<close>

fun highlight_classes :: "highlight \<Rightarrow> string list" where
  "highlight_classes Default = [''char'']"
| "highlight_classes Comparing = [''char'', ''comparing'']"
| "highlight_classes MismatchHL = [''char'', ''mismatch'']"
| "highlight_classes MatchHL = [''char'', ''match'']"
| "highlight_classes Found = [''char'', ''found'']"

text \<open>A text index lies in a previously found match when some found position \<open>f\<close> has
  \<open>f \<le> k < f + len(pattern)\<close>; it lies in the match reported by the step when the
  step's found index \<open>f\<close> has \<open>f \<le> k < f + len(pattern)\<close>.\<close>

definition in_found_match :: "nat \<Rightarrow> int list \<Rightarrow> nat \<Rightarrow> bool" where
  "in_found_match m found k = (\<exists>f\<in>set found. f \<le> int k \<and> int k < f + int m)"

definition in_reported_match :: "nat \<Rightarrow> step \<Rightarrow> nat \<Rightarrow> bool" where
  "in_reported_match m st k =
     (case found_indices st of [] \<Rightarrow> False | f # _ \<Rightarrow> f \<le> int k \<and> int k < f + int m)"

definition pattern_highlight :: "step \<Rightarrow> nat \<Rightarrow> highlight" where
  "pattern_highlight st i =
     (case outcome st of
        Pending \<Rightarrow> if int i = pattern_idx st then Comparing else Default
      | Mismatch \<Rightarrow> if int i = pattern_idx st then MismatchHL else Default
      | FullMatch \<Rightarrow> MatchHL)"

definition text_highlight :: "nat \<Rightarrow> int list \<Rightarrow> step \<Rightarrow> nat \<Rightarrow> highlight" where
  "text_highlight m found st k =
     (case outcome st of
        Pending \<Rightarrow>
          if int k = text_idx st then Comparing
          else if in_found_match m found k then Found else Default
      | Mismatch \<Rightarrow>
          if int k = text_idx st then MismatchHL
          else if in_found_match m found k then Found else Default
      | FullMatch \<Rightarrow>
          if in_reported_match m st k then MatchHL
          else if in_found_match m found k then Found else Default)"

subsection \<open>The session and its buttons\<close>

text \<open>The keys of \<^verbatim>\<open>st.session_state\<close> that the handlers use. \<open>step_idx\<close> is
  \<open>None\<close> before a search is started, \<open>-1\<close> for the initial layout and an index into
  \<open>steps\<close> afterwards. The key \<^verbatim>\<open>found_indices\<close> of the session is the field
  \<open>session_found_indices\<close>.\<close>

record 'c session =
  text_input :: "'c list"
  pattern_input :: "'c list"
  steps :: "step list"
  step_idx :: "int option"
  session_found_indices :: "int list"
  started :: bool
  complete :: bool

text \<open>The handler of the Start Search button. It returns the message shown by
  \<^verbatim>\<open>st.error\<close>, if any, and the session afterwards.\<close>

definition start_search :: "'c session \<Rightarrow> error + (string option \<times> 'c session)" where
  "start_search s =
     (let text = text_input s; pattern = pattern_input s
      in if text = [] \<or> pattern = []
         then Inr (Some ''Text and Pattern cannot be empty.'', s)
         else if length pattern > length text
         then Inr (Some ''Pattern cannot be longer than the text.'', s)
         else (case naive_search_steps text pattern of
                 Inl e \<Rightarrow> Inl e
               | Inr generated \<Rightarrow>
                   Inr (None, s\<lparr>steps := generated, session_found_indices := [],
                                 step_idx := Some (- 1), started := True,
                                 complete := False\<rparr>)))"

text \<open>The Next Step button is disabled while the session is not started or is
  complete; a disabled button cannot be pressed. \<open>next_step\<close> is the body of its
  handler, \<open>advance\<close> one press of the button.\<close>

definition disabled_next :: "'c session \<Rightarrow> bool" where
  "disabled_next s = (\<not> started s \<or> complete s)"

definition next_step :: "'c session \<Rightarrow> error + 'c session" where
  "next_step s =
     (case step_idx s of
        None \<Rightarrow> Inr s
      | Some idx \<Rightarrow>
          if idx < int (length (steps s)) - 1
          then (case py_index (steps s) (idx + 1) of
                  Inl e \<Rightarrow> Inl e
                | Inr st \<Rightarrow>
                    if match st = Some True \<and> found_indices st \<noteq> []
                    then Inr (s\<lparr>step_idx := Some (idx + 1),
                                 session_found_indices :=
                                   session_found_indices s @ found_indices st\<rparr>)
                    else Inr (s\<lparr>step_idx := Some (idx + 1)\<rparr>))
          else Inr (s\<lparr>complete := True\<rparr>))"

definition advance :: "'c session \<Rightarrow> error + 'c session" where
  "advance s = (if disabled_next s then Inr s else next_step s)"

text \<open>A number of presses of Next Step in a row.\<close>

fun advances :: "nat \<Rightarrow> 'c session \<Rightarrow> error + 'c session" where
  "advances 0 s = Inr s"
| "advances (Suc k) s = (case advance s of Inl e \<Rightarrow> Inl e | Inr s' \<Rightarrow> advances k s')"

text \<open>\<^verbatim>\<open>reset_state\<close>, called by the Reset button. The keys \<^verbatim>\<open>text\<close> and
  \<^verbatim>\<open>pattern\<close>, which only seed the two input widgets, are not part of the model.\<close>

definition reset_state :: "'c session \<Rightarrow> 'c session" where
  "reset_state s =
     s\<lparr>steps := [], step_idx := None, session_found_indices := [],
       started := False, complete := False\<rparr>"

text \<open>The summary shown below the status line once the search is finished: the found
  indices, or that the pattern was not found. \<open>None\<close> when no summary is shown.\<close>

datatype summary = Found_at_indices "int list" | Not_found

definition completion_summary :: "'c session \<Rightarrow> summary option" where
  "completion_summary s =
     (if \<not> started s then None
      else (case step_idx s of
              None \<Rightarrow> None
            | Some idx \<Rightarrow>
                if idx \<ge> int (length (steps s)) - 1
                then (if \<not> complete s then None
                      else if session_found_indices s \<noteq> []
                      then Some (Found_at_indices (session_found_indices s))
                      else Some Not_found)
                else None))"

section \<open>Properties of the step generator\<close>

subsection \<open>The generator computes the reference trace\<close>

declare reference_shift_trace.simps [simp del]

lemma py_index_nat: "k < length xs \<Longrightarrow> py_index xs (int k) = Inr (xs ! k)"
  by (simp add: py_index_def)

lemma inner_loop_reference:
  "i + length p \<le> length t \<Longrightarrow>
   \<exists>xs broke. inner_loop t p i [j..<length p] acc = Inr (xs, broke)
     \<and> (if broke then xs else xs @ [full_match_step i (length p)])
        = acc @ reference_shift_trace t p i j"
proof (induction t p i j arbitrary: acc rule: reference_shift_trace.induct)
  case (1 t p i j)
  show ?case
  proof (cases "length p \<le> j")
    case True
    then have "inner_loop t p i [j..<length p] acc = Inr (acc, False)"
      by simp
    moreover have "reference_shift_trace t p i j = [full_match_step i (length p)]"
      using True by (simp add: reference_shift_trace.simps [of t p i j])
    ultimately show ?thesis by auto
  next
    case False
    then have j: "j < length p" by simp
    then have ij: "i + j < length t" using "1.prems" by simp
    have upt: "[j..<length p] = j # [Suc j..<length p]"
      using j by (simp add: upt_conv_Cons)
    show ?thesis
    proof (cases "t ! (i + j) = p ! j")
      case True
      from "1.IH" [OF False _ "1.prems", of "acc @ [pending_step i j]"] True
      obtain xs broke where
        "inner_loop t p i [Suc j..<length p] (acc @ [pending_step i j]) = Inr (xs, broke)"
        "(if broke then xs else xs @ [full_match_step i (length p)])
           = (acc @ [pending_step i j]) @ reference_shift_trace t p i (Suc j)"
        by auto
      then show ?thesis
        using True j ij
        by (simp add: upt reference_shift_trace.simps [of t p i j]
              py_index_nat [OF ij, simplified] py_index_nat [OF j] pending_step_def)
    next
      case False
      then show ?thesis
        using j ij
        by (auto simp: upt reference_shift_trace.simps [of t p i j]
              py_index_nat [OF ij, simplified] py_index_nat [OF j] pending_step_def mismatch_step_def)
    qed
  qed
qed

lemma outer_loop_reference:
  "\<forall>i\<in>set is. i + length p \<le> length t \<Longrightarrow>
   outer_loop t p (length p) is acc
     = Inr (acc @ concat (map (\<lambda>i. reference_shift_trace t p i 0) is))"
proof (induction "is" arbitrary: acc)
  case Nil
  then show ?case by simp
next
  case (Cons i "is")
  then have i: "i + length p \<le> length t" by simp
  from inner_loop_reference [OF i, of 0 acc]
  obtain xs broke where
    il: "inner_loop t p i [0..<length p] acc = Inr (xs, broke)" and
    eq: "(if broke then xs else xs @ [full_match_step i (length p)])
        = acc @ reference_shift_trace t p i 0"
    by blast
  have "outer_loop t p (length p) (i # is) acc
      = outer_loop t p (length p) is (if broke then xs else xs @ [full_match_step i (length p)])"
    by (simp add: il full_match_step_def)
  also have "\<dots> = Inr ((acc @ reference_shift_trace t p i 0)
                        @ concat (map (\<lambda>i. reference_shift_trace t p i 0) is))"
    unfolding eq using Cons.prems by (intro Cons.IH) simp
  finally show ?case by simp
qed

lemma naive_search_steps_reference:
  "1 \<le> length p \<Longrightarrow> length p \<le> length t \<Longrightarrow>
   naive_search_steps t p = Inr (reference_trace t p)"
proof -
  assume m: "1 \<le> length p" and n: "length p \<le> length t"
  have "\<forall>i\<in>set [0..<length t - length p + 1]. i + length p \<le> length t"
    using n by auto
  moreover have "p \<noteq> []" "\<not> length t < length p"
    using m n by auto
  ultimately show ?thesis
    using outer_loop_reference [of "[0..<length t - length p + 1]" p t "[]"]
    by (simp add: naive_search_steps_def reference_trace_def Let_def del: upt_Suc)
qed


lemma reference_shift_trace_shape:
  "j \<le> length p \<Longrightarrow>
   \<exists>k. j \<le> k \<and> k \<le> length p \<and>
     (if k = length p \<and> (\<forall>l. j \<le> l \<and> l < length p \<longrightarrow> t ! (i + l) = p ! l)
      then reference_shift_trace t p i j
           = map (pending_step i) [j..<length p] @ [full_match_step i (length p)]
      else k < length p \<and> t ! (i + k) \<noteq> p ! k \<and>
           reference_shift_trace t p i j
           = map (pending_step i) [j..<Suc k] @ [mismatch_step i k])"
proof (induction t p i j rule: reference_shift_trace.induct)
  case (1 t p i j)
  show ?case
  proof (cases "length p \<le> j")
    case True
    with "1.prems" have "j = length p" by simp
    then show ?thesis
      by (intro exI [of _ j]) (simp add: reference_shift_trace.simps [of t p i "length p"])
  next
    case False
    then have j: "j < length p" by simp
    show ?thesis
    proof (cases "t ! (i + j) = p ! j")
      case neq: False
      then show ?thesis
        using j
        by (intro exI [of _ j]) (auto simp: reference_shift_trace.simps [of t p i j])
    next
      case True
      from "1.IH" [OF False] True j
      obtain k where k: "Suc j \<le> k" "k \<le> length p" and
        sh: "if k = length p \<and> (\<forall>l. Suc j \<le> l \<and> l < length p \<longrightarrow> t ! (i + l) = p ! l)
             then reference_shift_trace t p i (Suc j)
                  = map (pending_step i) [Suc j..<length p] @ [full_match_step i (length p)]
             else k < length p \<and> t ! (i + k) \<noteq> p ! k \<and>
                  reference_shift_trace t p i (Suc j)
                  = map (pending_step i) [Suc j..<Suc k] @ [mismatch_step i k]"
        by auto
      have all: "(\<forall>l. j \<le> l \<and> l < length p \<longrightarrow> t ! (i + l) = p ! l)
             \<longleftrightarrow> (\<forall>l. Suc j \<le> l \<and> l < length p \<longrightarrow> t ! (i + l) = p ! l)"
        using True by (metis Suc_leI le_neq_implies_less Suc_leD)
      have unf: "reference_shift_trace t p i j = pending_step i j # reference_shift_trace t p i (Suc j)"
        using True j by (simp add: reference_shift_trace.simps [of t p i j])
      have upt1: "[j..<length p] = j # [Suc j..<length p]"
        using j by (simp add: upt_conv_Cons)
      have upt2: "[j..<Suc k] = j # [Suc j..<Suc k]"
        using k by (simp add: upt_conv_Cons)
      show ?thesis
        using k sh
        by (intro exI [of _ k]) (simp add: all unf upt1 upt2 del: upt_Suc split: if_splits)
    qed
  qed
qed

lemma occurs_at_iff:
  "i + length p \<le> length t \<Longrightarrow>
   occurs_at t p i \<longleftrightarrow> (\<forall>l. 0 \<le> l \<and> l < length p \<longrightarrow> t ! (i + l) = p ! l)"
  by (auto simp: occurs_at_def list_eq_iff_nth_eq)


lemma full_match_steps_shift_trace:
  assumes "i + length p \<le> length t"
  shows "full_match_steps (reference_shift_trace t p i 0)
         = (if occurs_at t p i then [full_match_step i (length p)] else [])"
proof -
  from reference_shift_trace_shape [of 0 p t i]
  obtain k where
    sh: "if k = length p \<and> (\<forall>l. 0 \<le> l \<and> l < length p \<longrightarrow> t ! (i + l) = p ! l)
         then reference_shift_trace t p i 0
              = map (pending_step i) [0..<length p] @ [full_match_step i (length p)]
         else k < length p \<and> t ! (i + k) \<noteq> p ! k \<and>
              reference_shift_trace t p i 0
              = map (pending_step i) [0..<Suc k] @ [mismatch_step i k]"
    by auto
  have pend: "filter (\<lambda>s. match s = Some True) (map (pending_step i) js) = []" for js
    by (induction js) (simp_all add: pending_step_def)
  show ?thesis
  proof (cases "occurs_at t p i")
    case True
    then have "\<forall>l. 0 \<le> l \<and> l < length p \<longrightarrow> t ! (i + l) = p ! l"
      using occurs_at_iff [OF assms] by simp
    with sh have "reference_shift_trace t p i 0
              = map (pending_step i) [0..<length p] @ [full_match_step i (length p)]"
      by (auto split: if_splits)
    then show ?thesis
      using True by (simp add: full_match_steps_def pend full_match_step_def)
  next
    case False
    then have "\<not> (\<forall>l. 0 \<le> l \<and> l < length p \<longrightarrow> t ! (i + l) = p ! l)"
      using occurs_at_iff [OF assms] by simp
    with sh have "reference_shift_trace t p i 0
              = map (pending_step i) [0..<Suc k] @ [mismatch_step i k]"
      by (auto split: if_splits)
    then show ?thesis
      using False by (simp add: full_match_steps_def pend mismatch_step_def del: upt_Suc)
  qed
qed

lemma concat_map_if_singleton:
  "concat (map (\<lambda>i. if P i then [g i] else []) xs) = map g (filter P xs)"
  by (induction xs) simp_all

lemma full_match_steps_concat:
  "full_match_steps (concat xss) = concat (map full_match_steps xss)"
  by (induction xss) (simp_all add: full_match_steps_def)

lemma full_match_steps_reference_trace:
  assumes "length p \<le> length t"
  shows "full_match_steps (reference_trace t p)
         = map (\<lambda>i. full_match_step i (length p))
               (filter (occurs_at t p) [0..<length t - length p + 1])"
proof -
  have "map full_match_steps (map (\<lambda>i. reference_shift_trace t p i 0)
                                  [0..<length t - length p + 1])
      = map (\<lambda>i. if occurs_at t p i then [full_match_step i (length p)] else [])
            [0..<length t - length p + 1]"
    unfolding map_map
  proof (rule map_cong [OF refl])
    fix i assume "i \<in> set [0..<length t - length p + 1]"
    then have "i + length p \<le> length t" using assms by auto
    then show "(full_match_steps \<circ> (\<lambda>i. reference_shift_trace t p i 0)) i
             = (if occurs_at t p i then [full_match_step i (length p)] else [])"
      by (simp add: full_match_steps_shift_trace)
  qed
  then show ?thesis
    by (simp only: reference_trace_def full_match_steps_concat concat_map_if_singleton)
qed

lemma card_occurrences:
  "card {i. i \<le> k \<and> P i} = length (filter P [0..<k + 1])"
proof -
  have "{i. i \<le> k \<and> P i} = set (filter P [0..<k + 1])"
    by (auto simp del: upt_Suc)
  moreover have "distinct (filter P [0..<k + 1])"
    by (simp del: upt_Suc)
  ultimately show ?thesis
    by (simp only: distinct_card)
qed

lemma sorted_wrt_map_int_filter_upt:
  "sorted_wrt (<) (map int (filter P [0..<k]))"
  by (simp add: sorted_wrt_map sorted_wrt_filter sorted_wrt_upt)

lemma reference_shift_trace_find:
  "j \<le> length p \<Longrightarrow>
   reference_shift_trace t p i j
     = (case find (\<lambda>l. t ! (i + l) \<noteq> p ! l) [j..<length p] of
          None \<Rightarrow> map (pending_step i) [j..<length p] @ [full_match_step i (length p)]
        | Some k \<Rightarrow> map (pending_step i) [j..<Suc k] @ [mismatch_step i k])"
proof (induction t p i j rule: reference_shift_trace.induct)
  case (1 t p i j)
  show ?case
  proof (cases "length p \<le> j")
    case True
    then show ?thesis
      by (simp add: reference_shift_trace.simps [of t p i j])
  next
    case False
    then have j: "j < length p" by simp
    have upt: "[j..<length p] = j # [Suc j..<length p]"
      using j by (rule upt_conv_Cons)
    show ?thesis
    proof (cases "t ! (i + j) = p ! j")
      case neq: False
      then show ?thesis
        using j by (simp add: upt reference_shift_trace.simps [of t p i j])
    next
      case True
      have ih: "reference_shift_trace t p i (Suc j)
          = (case find (\<lambda>l. t ! (i + l) \<noteq> p ! l) [Suc j..<length p] of
               None \<Rightarrow> map (pending_step i) [Suc j..<length p] @ [full_match_step i (length p)]
             | Some k \<Rightarrow> map (pending_step i) [Suc j..<Suc k] @ [mismatch_step i k])"
        using "1.IH" [OF False] True j by simp
      have unf: "reference_shift_trace t p i j
          = pending_step i j # reference_shift_trace t p i (Suc j)"
        using True j by (simp add: reference_shift_trace.simps [of t p i j])
      show ?thesis
      proof (cases "find (\<lambda>l. t ! (i + l) \<noteq> p ! l) [Suc j..<length p]")
        case None
        then show ?thesis
          using True by (simp add: unf ih upt)
      next
        case (Some k)
        then have "k \<in> set [Suc j..<length p]"
          by (auto simp: find_Some_iff)
        then have "j < Suc k" by simp
        then have "[j..<Suc k] = j # [Suc j..<Suc k]"
          by (rule upt_conv_Cons)
        then show ?thesis
          using True Some by (simp add: unf ih upt del: upt_Suc)
      qed
    qed
  qed
qed

lemma reference_shift_trace_block:
  "reference_shift_trace t p i 0 = shift_block t p i"
  by (simp add: reference_shift_trace_find shift_block_def first_mismatch_def)

lemma reference_trace_blocks:
  "reference_trace t p = concat (map (shift_block t p) [0..<length t - length p + 1])"
  by (simp only: reference_trace_def reference_shift_trace_block)

text \<open>
  C1. For every text and pattern with \<open>1 \<le> len(pattern) \<le> len(text)\<close>, the sequence
  returned by \<^verbatim>\<open>naive_search_steps\<close> is the reference trace of the naive algorithm:
  for each shift \<open>i\<close> from 0 to \<open>len(text) - len(pattern)\<close> in increasing order, and for
  each offset \<open>j\<close> from 0 upward, a Pending step with text index \<open>i + j\<close>, pattern index
  \<open>j\<close> and shift \<open>i\<close>; on unequal characters a Mismatch step with the same fields, which
  ends the shift; after \<open>len(pattern)\<close> equal comparisons one FullMatch step with text
  index \<open>i + len(pattern) - 1\<close>, pattern index \<open>len(pattern) - 1\<close>, shift \<open>i\<close> and found
  indices \<open>[i]\<close>; nothing else, in this order. No index error is raised on the way.
  The second equation gives the reference trace shift by shift in closed form.
\<close>

theorem naive_search_steps_is_reference_trace:
  "1 \<le> length pattern \<Longrightarrow> length pattern \<le> length text \<Longrightarrow>
   naive_search_steps text pattern = Inr (reference_trace text pattern)
   \<and> reference_trace text pattern
       = concat (map (shift_block text pattern) [0..<length text - length pattern + 1])"
  by (simp only: naive_search_steps_reference reference_trace_blocks simp_thms)

theorem naive_search_steps_is_reference_trace_witness:
  "1 \<le> length ''AC'' \<and> length ''AC'' \<le> length ''AB'' \<and>
   naive_search_steps ''AB'' ''AC'' = Inr [pending_step 0 0, pending_step 0 1, mismatch_step 0 1]
   \<and> first_mismatch ''AB'' ''AC'' 0 = Some 1"
  using naive_search_steps_is_reference_trace [of "''AC''" "''AB''"]
  by (simp add: reference_trace_def reference_shift_trace.simps first_mismatch_def upt_rec)

text \<open>
  C2. For every text and pattern with \<open>1 \<le> len(pattern) \<le> len(text)\<close>, the number of
  FullMatch steps is the number of indices \<open>i\<close> in \<open>[0, len(text) - len(pattern)]\<close> at
  which the pattern occurs (overlapping occurrences included), and the found indices
  carried by the FullMatch steps are exactly those indices, in increasing order.
\<close>

theorem full_match_steps_are_occurrences:
  assumes "1 \<le> length p" and "length p \<le> length t"
  shows "\<exists>steps. naive_search_steps t p = Inr steps
     \<and> length (full_match_steps steps)
         = card {i. i \<le> length t - length p \<and> occurs_at t p i}
     \<and> map found_indices (full_match_steps steps)
         = map (\<lambda>i. [int i]) (filter (occurs_at t p) [0..<length t - length p + 1])
     \<and> sorted_wrt (<) (concat (map found_indices (full_match_steps steps)))"
proof -
  let ?occ = "filter (occurs_at t p) [0..<length t - length p + 1]"
  have fm: "full_match_steps (reference_trace t p)
          = map (\<lambda>i. full_match_step i (length p)) ?occ"
    using assms(2) by (rule full_match_steps_reference_trace)
  have fi: "map found_indices (full_match_steps (reference_trace t p)) = map (\<lambda>i. [int i]) ?occ"
    unfolding fm by (simp add: full_match_step_def)
  have "concat (map (\<lambda>i. [int i]) ?occ) = map int ?occ"
    by (induction ?occ) simp_all
  then have "sorted_wrt (<) (concat (map found_indices (full_match_steps (reference_trace t p))))"
    unfolding fi by (simp only: sorted_wrt_map_int_filter_upt)
  moreover have "length (full_match_steps (reference_trace t p))
      = card {i. i \<le> length t - length p \<and> occurs_at t p i}"
    unfolding fm by (simp only: card_occurrences length_map)
  ultimately show ?thesis
    using naive_search_steps_reference [OF assms] fi by simp
qed

theorem full_match_steps_are_occurrences_witness:
  "1 \<le> length ''AA'' \<and> length ''AA'' \<le> length ''AAAA'' \<and>
   (\<exists>steps. naive_search_steps ''AAAA'' ''AA'' = Inr steps
      \<and> length (full_match_steps steps) = 3
      \<and> map found_indices (full_match_steps steps) = [[0], [1], [2]]
      \<and> sorted_wrt (<) (concat (map found_indices (full_match_steps steps))))"
proof -
  have h1: "1 \<le> length ''AA''" and h2: "length ''AA'' \<le> length ''AAAA''"
    by simp_all
  have occ: "filter (occurs_at ''AAAA'' ''AA'') [0..<length ''AAAA'' - length ''AA'' + 1] = [0, 1, 2]"
    by (simp add: occurs_at_def upt_rec)
  from full_match_steps_are_occurrences [OF h1 h2]
  obtain steps where
    s: "naive_search_steps ''AAAA'' ''AA'' = Inr steps" and
    f: "map found_indices (full_match_steps steps)
         = map (\<lambda>i. [int i]) (filter (occurs_at ''AAAA'' ''AA'') [0..<length ''AAAA'' - length ''AA'' + 1])" and
    o: "sorted_wrt (<) (concat (map found_indices (full_match_steps steps)))"
    by blast
  from f have f': "map found_indices (full_match_steps steps) = [[0], [1], [2]]"
    unfolding occ by simp
  then have "length (map found_indices (full_match_steps steps)) = 3"
    by simp
  then have "length (full_match_steps steps) = 3"
    by simp
  with s f' o h1 h2 show ?thesis
    by (intro conjI exI [of _ steps])
qed

subsection \<open>Order of shifts and pattern indices\<close>

lemma shift_reference_shift_trace:
  "s \<in> set (reference_shift_trace t p i j) \<Longrightarrow> shift s = int i"
proof (induction t p i j rule: reference_shift_trace.induct)
  case (1 t p i j)
  then show ?case
    by (subst (asm) (2) reference_shift_trace.simps)
       (auto simp: pending_step_def mismatch_step_def full_match_step_def split: if_splits)
qed

lemma sorted_map_constant:
  "\<forall>s\<in>set xs. f s = (c::int) \<Longrightarrow> sorted (map f xs)"
  by (induction xs) simp_all

lemma sorted_shift_concat:
  "sorted xs \<Longrightarrow>
   sorted (map shift (concat (map (\<lambda>i. reference_shift_trace t p i 0) xs)))"
proof (induction xs)
  case Nil
  then show ?case by simp
next
  case (Cons i xs)
  have "shift a \<le> shift b"
    if "a \<in> set (reference_shift_trace t p i 0)"
      and "k \<in> set xs" and "b \<in> set (reference_shift_trace t p k 0)" for a b k
    using that Cons.prems by (auto simp: shift_reference_shift_trace)
  moreover have "sorted (map shift (reference_shift_trace t p i 0))"
    by (rule sorted_map_constant [where c = "int i"]) (simp add: shift_reference_shift_trace)
  ultimately show ?case
    using Cons by (auto simp: sorted_append)
qed


lemma steps_with_shift_concat:
  "distinct xs \<Longrightarrow>
   steps_with_shift v (concat (map (\<lambda>i. reference_shift_trace t p i 0) xs))
     = (if \<exists>i\<in>set xs. v = int i then reference_shift_trace t p (nat v) 0 else [])"
proof (induction xs)
  case Nil
  then show ?case by (simp add: steps_with_shift_def)
next
  case (Cons i xs)
  have same: "filter (\<lambda>s. shift s = int i) (reference_shift_trace t p i 0)
            = reference_shift_trace t p i 0"
    by (simp add: shift_reference_shift_trace)
  have other: "filter (\<lambda>s. shift s = v) (reference_shift_trace t p i 0) = []" if "v \<noteq> int i"
    using that by (auto simp: filter_empty_conv shift_reference_shift_trace)
  show ?case
  proof (cases "v = int i")
    case True
    then have "\<not> (\<exists>k\<in>set xs. v = int k)"
      using Cons.prems by auto
    then show ?thesis
      using Cons True same by (simp add: steps_with_shift_def)
  next
    case False
    then show ?thesis
      using Cons other by (simp add: steps_with_shift_def)
  qed
qed

lemma steps_with_shift_reference_trace:
  "steps_with_shift v (reference_trace t p)
     = (if 0 \<le> v \<and> v \<le> int (length t - length p)
        then reference_shift_trace t p (nat v) 0 else [])"
proof -
  have "(\<exists>i\<in>set [0..<length t - length p + 1]. v = int i)
        \<longleftrightarrow> 0 \<le> v \<and> v \<le> int (length t - length p)"
  proof
    assume "0 \<le> v \<and> v \<le> int (length t - length p)"
    then have "nat v \<in> set [0..<length t - length p + 1]" "v = int (nat v)"
      by auto
    then show "\<exists>i\<in>set [0..<length t - length p + 1]. v = int i"
      by blast
  qed auto
  then show ?thesis
    unfolding reference_trace_def
    by (simp only: steps_with_shift_concat [OF distinct_upt])
qed


lemma filter_pending_block:
  "pending_steps (map (pending_step i) js) = map (pending_step i) js"
  "pending_mismatch_steps (map (pending_step i) js) = map (pending_step i) js"
  "mismatch_steps (map (pending_step i) js) = []"
  by (induction js)
     (simp_all add: pending_steps_def pending_mismatch_steps_def mismatch_steps_def
        pending_step_def)

lemma pattern_idx_pending_block:
  "map pattern_idx (map (pending_step i) js) = map int js"
  by (simp add: pending_step_def)

lemma filter_steps_append:
  "pending_steps (xs @ ys) = pending_steps xs @ pending_steps ys"
  "pending_mismatch_steps (xs @ ys) = pending_mismatch_steps xs @ pending_mismatch_steps ys"
  "mismatch_steps (xs @ ys) = mismatch_steps xs @ mismatch_steps ys"
  by (simp_all add: pending_steps_def pending_mismatch_steps_def mismatch_steps_def)

lemma filter_steps_last:
  "pending_steps [full_match_step i m] = []"
  "pending_mismatch_steps [full_match_step i m] = []"
  "mismatch_steps [full_match_step i m] = []"
  "pending_steps [mismatch_step i k] = []"
  "pending_mismatch_steps [mismatch_step i k] = [mismatch_step i k]"
  "mismatch_steps [mismatch_step i k] = [mismatch_step i k]"
  by (simp_all add: pending_steps_def pending_mismatch_steps_def mismatch_steps_def
        full_match_step_def mismatch_step_def)

lemma shift_block_order:
  fixes t p :: "'c list" and i :: nat
  assumes "1 \<le> length p"
  defines "sub \<equiv> reference_shift_trace t p i 0"
  shows "map pattern_idx (pending_steps sub) = map int [0..<length (pending_steps sub)]"
    and "sorted_wrt (<) (map pattern_idx (pending_steps sub))"
    and "sorted (map pattern_idx (pending_mismatch_steps sub))"
    and "pending_mismatch_steps sub \<noteq> []"
    and "pattern_idx (hd (pending_mismatch_steps sub)) = 0"
    and "\<forall>s\<in>set (mismatch_steps sub). pattern_idx s = pattern_idx (last (pending_steps sub))"
proof -
  from reference_shift_trace_shape [of 0 p t i]
  obtain k where
    "if k = length p \<and> (\<forall>l. 0 \<le> l \<and> l < length p \<longrightarrow> t ! (i + l) = p ! l)
     then sub = map (pending_step i) [0..<length p] @ [full_match_step i (length p)]
     else k < length p \<and> t ! (i + k) \<noteq> p ! k \<and>
          sub = map (pending_step i) [0..<Suc k] @ [mismatch_step i k]"
    unfolding sub_def by auto
  then consider
    (full) "sub = map (pending_step i) [0..<length p] @ [full_match_step i (length p)]" |
    (mis) "sub = map (pending_step i) [0..<Suc k] @ [mismatch_step i k]"
    by (auto split: if_splits)
  then have
    "map pattern_idx (pending_steps sub) = map int [0..<length (pending_steps sub)]
     \<and> sorted_wrt (<) (map pattern_idx (pending_steps sub))
     \<and> sorted (map pattern_idx (pending_mismatch_steps sub))
     \<and> pending_mismatch_steps sub \<noteq> []
     \<and> pattern_idx (hd (pending_mismatch_steps sub)) = 0
     \<and> (\<forall>s\<in>set (mismatch_steps sub). pattern_idx s = pattern_idx (last (pending_steps sub)))"
  proof cases
    case full
    have "0 < length p"
      using assms(1) by (cases p) simp_all
    then have m: "[0..<length p] = 0 # [Suc 0..<length p]"
      by (rule upt_conv_Cons)
    have "pending_steps sub = map (pending_step i) [0..<length p]"
      and "pending_mismatch_steps sub = map (pending_step i) [0..<length p]"
      and "mismatch_steps sub = []"
      unfolding full by (simp_all only: filter_steps_append filter_pending_block filter_steps_last append_Nil2)
    moreover have "map (pending_step i) [0..<length p] \<noteq> []"
      "pattern_idx (hd (map (pending_step i) [0..<length p])) = 0"
      unfolding m by (simp_all add: pending_step_def)
    moreover have "sorted_wrt (<) (map int [0..<length p])" "sorted (map int [0..<length p])"
      by (simp_all add: sorted_wrt_map sorted_map)
    ultimately show ?thesis
      by (simp only: pattern_idx_pending_block length_map length_upt minus_nat.diff_0)
         simp
  next
    case mis
    have pend: "pending_steps sub = map (pending_step i) [0..<Suc k]"
      and pm: "pending_mismatch_steps sub = map (pending_step i) [0..<Suc k] @ [mismatch_step i k]"
      and mm: "mismatch_steps sub = [mismatch_step i k]"
      unfolding mis by (simp_all only: filter_steps_append filter_pending_block filter_steps_last append_Nil2 append_Nil)
    have k: "[0..<Suc k] = 0 # [Suc 0..<Suc k]"
      by (rule upt_conv_Cons) simp
    have 1: "map pattern_idx (pending_steps sub) = map int [0..<length (pending_steps sub)]"
      unfolding pend by (simp only: pattern_idx_pending_block length_map length_upt minus_nat.diff_0)
    have 2: "sorted_wrt (<) (map pattern_idx (pending_steps sub))"
      unfolding pend pattern_idx_pending_block by (simp add: sorted_wrt_map del: upt_Suc)
    have 3: "sorted (map pattern_idx (pending_mismatch_steps sub))"
      unfolding pm map_append pattern_idx_pending_block
      by (auto simp: sorted_append sorted_map mismatch_step_def simp del: upt_Suc)
    have 4: "pending_mismatch_steps sub \<noteq> []" "pattern_idx (hd (pending_mismatch_steps sub)) = 0"
      unfolding pm k by (simp_all add: pending_step_def)
    have 5: "\<forall>s\<in>set (mismatch_steps sub). pattern_idx s = pattern_idx (last (pending_steps sub))"
      unfolding mm pend by (simp add: mismatch_step_def pending_step_def)
    from 1 2 3 4 5 show ?thesis by blast
  qed
  then show "map pattern_idx (pending_steps sub) = map int [0..<length (pending_steps sub)]"
    and "sorted_wrt (<) (map pattern_idx (pending_steps sub))"
    and "sorted (map pattern_idx (pending_mismatch_steps sub))"
    and "pending_mismatch_steps sub \<noteq> []"
    and "pattern_idx (hd (pending_mismatch_steps sub)) = 0"
    and "\<forall>s\<in>set (mismatch_steps sub). pattern_idx s = pattern_idx (last (pending_steps sub))"
    by blast+
qed


lemma naive_search_steps_AB_AC:
  "naive_search_steps ''AB'' ''AC''
     = Inr [pending_step 0 0, pending_step 0 1, mismatch_step 0 1]"
  by (simp add: naive_search_steps_def py_index_def pending_step_def mismatch_step_def)

text \<open>
  C3 (as the code has it). Across the sequence returned by \<^verbatim>\<open>naive_search_steps\<close>
  the shift field is non-decreasing. Within the sub-sequence of steps sharing one shift
  value, the pattern indices of the Pending steps are strictly increasing starting at 0
  (they are 0, 1, 2, ... without gaps); the pattern indices of the Pending and Mismatch
  steps taken together are non-decreasing starting at 0, since a Mismatch step carries
  the pattern index of the last Pending step of its shift.
\<close>

theorem shift_nondecreasing_pattern_idx_ordered:
  "\<exists>steps. naive_search_steps t p = Inr steps
     \<and> sorted (map shift steps)
     \<and> (\<forall>v. let sub = steps_with_shift v steps in
            sorted_wrt (<) (map pattern_idx (pending_steps sub))
          \<and> map pattern_idx (pending_steps sub) = map int [0..<length (pending_steps sub)]
          \<and> sorted (map pattern_idx (pending_mismatch_steps sub))
          \<and> (pending_mismatch_steps sub \<noteq> []
               \<longrightarrow> pattern_idx (hd (pending_mismatch_steps sub)) = 0)
          \<and> (\<forall>s\<in>set (mismatch_steps sub).
                 pattern_idx s = pattern_idx (last (pending_steps sub))))"
proof (cases "1 \<le> length p \<and> length p \<le> length t")
  case False
  then have "length p = 0 \<or> length t < length p"
    by arith
  then have "naive_search_steps t p = Inr []"
    by (auto simp: naive_search_steps_def)
  then show ?thesis
    by (simp add: steps_with_shift_def pending_steps_def pending_mismatch_steps_def
          mismatch_steps_def)
next
  case True
  then have m: "1 \<le> length p" and n: "length p \<le> length t"
    by simp_all
  have run: "naive_search_steps t p = Inr (reference_trace t p)"
    using m n by (rule naive_search_steps_reference)
  have mono: "sorted (map shift (reference_trace t p))"
    unfolding reference_trace_def by (rule sorted_shift_concat) (rule sorted_upt)
  have block: "sorted_wrt (<) (map pattern_idx (pending_steps sub))
          \<and> map pattern_idx (pending_steps sub) = map int [0..<length (pending_steps sub)]
          \<and> sorted (map pattern_idx (pending_mismatch_steps sub))
          \<and> (pending_mismatch_steps sub \<noteq> []
               \<longrightarrow> pattern_idx (hd (pending_mismatch_steps sub)) = 0)
          \<and> (\<forall>s\<in>set (mismatch_steps sub).
                 pattern_idx s = pattern_idx (last (pending_steps sub)))"
    if "sub = steps_with_shift v (reference_trace t p)" for sub v
  proof (cases "0 \<le> v \<and> v \<le> int (length t - length p)")
    case True
    then have "sub = reference_shift_trace t p (nat v) 0"
      using that by (simp add: steps_with_shift_reference_trace)
    then show ?thesis
      using shift_block_order [OF m, of t "nat v"] by simp
  next
    case False
    then have "sub = []"
      using that by (auto simp: steps_with_shift_reference_trace)
    then show ?thesis
      by (simp add: pending_steps_def pending_mismatch_steps_def mismatch_steps_def)
  qed
  from block have "\<forall>v. let sub = steps_with_shift v (reference_trace t p) in
            sorted_wrt (<) (map pattern_idx (pending_steps sub))
          \<and> map pattern_idx (pending_steps sub) = map int [0..<length (pending_steps sub)]
          \<and> sorted (map pattern_idx (pending_mismatch_steps sub))
          \<and> (pending_mismatch_steps sub \<noteq> []
               \<longrightarrow> pattern_idx (hd (pending_mismatch_steps sub)) = 0)
          \<and> (\<forall>s\<in>set (mismatch_steps sub).
                 pattern_idx s = pattern_idx (last (pending_steps sub)))"
    unfolding Let_def by blast
  with run mono show ?thesis
    by blast
qed

text \<open>
  The Pending and Mismatch steps of one shift, taken together, are not strictly
  increasing in their pattern index: for the text \<^verbatim>\<open>AB\<close> and the pattern \<^verbatim>\<open>AC\<close>
  the pattern indices at shift 0 are 0, 1, 1, and the only Mismatch step has pattern
  index 1, not 0.
\<close>

theorem pending_mismatch_pattern_idx_not_strict:
  "naive_search_steps ''AB'' ''AC''
     = Inr [pending_step 0 0, pending_step 0 1, mismatch_step 0 1]
   \<and> steps_with_shift 0 [pending_step 0 0, pending_step 0 1, mismatch_step 0 1]
     = [pending_step 0 0, pending_step 0 1, mismatch_step 0 1]
   \<and> map pattern_idx (pending_mismatch_steps [pending_step 0 0, pending_step 0 1, mismatch_step 0 1])
     = [0, 1, 1]
   \<and> \<not> sorted_wrt (<) (map pattern_idx
         (pending_mismatch_steps [pending_step 0 0, pending_step 0 1, mismatch_step 0 1]))
   \<and> map pattern_idx (mismatch_steps [pending_step 0 0, pending_step 0 1, mismatch_step 0 1])
     = [1]"
  by (simp add: naive_search_steps_AB_AC steps_with_shift_def pending_mismatch_steps_def
        mismatch_steps_def pending_step_def mismatch_step_def)

theorem shift_nondecreasing_pattern_idx_ordered_witness:
  "\<exists>steps. naive_search_steps ''AB'' ''AC'' = Inr steps
     \<and> sorted (map shift steps)
     \<and> pending_mismatch_steps (steps_with_shift 0 steps) \<noteq> []
     \<and> pattern_idx (hd (pending_mismatch_steps (steps_with_shift 0 steps))) = 0
     \<and> mismatch_steps (steps_with_shift 0 steps) \<noteq> []
     \<and> (\<forall>s\<in>set (mismatch_steps (steps_with_shift 0 steps)).
           pattern_idx s = pattern_idx (last (pending_steps (steps_with_shift 0 steps))))
     \<and> sorted_wrt (<) (map pattern_idx (pending_steps (steps_with_shift 0 steps)))
     \<and> sorted (map pattern_idx (pending_mismatch_steps (steps_with_shift 0 steps)))"
proof -
  from shift_nondecreasing_pattern_idx_ordered [of "''AB''" "''AC''"]
  obtain steps where
    run: "naive_search_steps ''AB'' ''AC'' = Inr steps" and
    mono: "sorted (map shift steps)" and
    block: "\<And>v. let sub = steps_with_shift v steps in
            sorted_wrt (<) (map pattern_idx (pending_steps sub))
          \<and> map pattern_idx (pending_steps sub) = map int [0..<length (pending_steps sub)]
          \<and> sorted (map pattern_idx (pending_mismatch_steps sub))
          \<and> (pending_mismatch_steps sub \<noteq> []
               \<longrightarrow> pattern_idx (hd (pending_mismatch_steps sub)) = 0)
          \<and> (\<forall>s\<in>set (mismatch_steps sub).
                 pattern_idx s = pattern_idx (last (pending_steps sub)))"
    by blast
  have steps: "steps = [pending_step 0 0, pending_step 0 1, mismatch_step 0 1]"
    using run by (simp add: naive_search_steps_AB_AC)
  have ne: "pending_mismatch_steps (steps_with_shift 0 steps) \<noteq> []"
    "mismatch_steps (steps_with_shift 0 steps) \<noteq> []"
    unfolding steps
    by (simp_all add: steps_with_shift_def pending_mismatch_steps_def mismatch_steps_def
          pending_step_def mismatch_step_def)
  from block [of 0] have
    "sorted_wrt (<) (map pattern_idx (pending_steps (steps_with_shift 0 steps)))"
    "sorted (map pattern_idx (pending_mismatch_steps (steps_with_shift 0 steps)))"
    "pending_mismatch_steps (steps_with_shift 0 steps) \<noteq> []
       \<longrightarrow> pattern_idx (hd (pending_mismatch_steps (steps_with_shift 0 steps))) = 0"
    "\<forall>s\<in>set (mismatch_steps (steps_with_shift 0 steps)).
       pattern_idx s = pattern_idx (last (pending_steps (steps_with_shift 0 steps)))"
    unfolding Let_def by blast+
  with run mono ne show ?thesis
    by (intro exI [of _ steps]) blast
qed

subsection \<open>The generator returns on every input\<close>

text \<open>\<^verbatim>\<open>naive_search_steps\<close> reads nothing but its two arguments, so it is a function
  of them; on every text and pattern it returns a sequence and raises no index error.\<close>

lemma naive_search_steps_total:
  "\<exists>trace. naive_search_steps t p = Inr trace"
proof (cases "1 \<le> length p \<and> length p \<le> length t")
  case True
  then show ?thesis
    using naive_search_steps_reference [of p t] by blast
next
  case False
  then have "length p = 0 \<or> length t < length p"
    by arith
  then have "naive_search_steps t p = Inr []"
    by (auto simp: naive_search_steps_def)
  then show ?thesis by blast
qed

subsection \<open>Found indices of generated steps\<close>

lemma found_indices_reference_shift_trace:
  "s \<in> set (reference_shift_trace t p i j) \<Longrightarrow>
   (match s = Some True \<and> found_indices s = [shift s])
   \<or> (match s \<noteq> Some True \<and> found_indices s = [])"
proof (induction t p i j rule: reference_shift_trace.induct)
  case (1 t p i j)
  then show ?case
    by (subst (asm) (2) reference_shift_trace.simps)
       (auto simp: pending_step_def mismatch_step_def full_match_step_def split: if_splits)
qed

lemma found_indices_generated:
  assumes "naive_search_steps t p = Inr trace" and "s \<in> set trace"
  shows "(match s = Some True \<and> found_indices s = [shift s])
         \<or> (match s \<noteq> Some True \<and> found_indices s = [])"
proof (cases "1 \<le> length p \<and> length p \<le> length t")
  case True
  then have "trace = reference_trace t p"
    using naive_search_steps_reference [of p t] assms(1) by simp
  then obtain i where "s \<in> set (reference_shift_trace t p i 0)"
    using assms(2) by (auto simp: reference_trace_def simp del: upt_Suc)
  then show ?thesis
    by (rule found_indices_reference_shift_trace)
next
  case False
  then have "length p = 0 \<or> length t < length p"
    by arith
  then have "naive_search_steps t p = Inr []"
    by (auto simp: naive_search_steps_def)
  then show ?thesis
    using assms by simp
qed

lemma py_index_first: "xs \<noteq> [] \<Longrightarrow> py_index xs 0 = Inr (hd xs)"
  by (cases xs) (simp_all add: py_index_def)

lemma current_match_positions_total:
  "\<exists>cm. current_match_positions m ms sf = Inr cm"
  by (cases "sf = []") (simp_all add: current_match_positions_def py_index_first)

lemma render_visual_total:
  "\<exists>model. render_visual text' pattern' step found = Inr model"
proof -
  obtain cm where "current_match_positions (length pattern')
      (case step of None \<Rightarrow> None | Some st \<Rightarrow> match st)
      (case step of None \<Rightarrow> [] | Some st \<Rightarrow> found_indices st) = Inr cm"
    using current_match_positions_total by blast
  then show ?thesis
    by (simp add: render_visual_def Let_def)
qed

lemma naive_search_steps_A_A: "naive_search_steps ''A'' ''A'' = Inr [pending_step 0 0, full_match_step 0 1]"
  by (simp add: naive_search_steps_def py_index_def pending_step_def full_match_step_def)


text \<open>
  C10. For every text and pattern and every step of the generated sequence: a step whose
  match is \<^verbatim>\<open>True\<close> has the non-empty found indices \<open>[shift]\<close>, and a step whose
  match is \<^verbatim>\<open>None\<close> or \<^verbatim>\<open>False\<close> has none; so neither \<^verbatim>\<open>status_text\<close> nor
  \<^verbatim>\<open>render_visual\<close> raises an index error on a generated step.
\<close>

theorem generated_found_indices_safe:
  "\<exists>trace. naive_search_steps t p = Inr trace
     \<and> (\<forall>s\<in>set trace.
           (match s = Some True \<longrightarrow> found_indices s = [shift s] \<and> found_indices s \<noteq> [])
         \<and> (match s = None \<or> match s = Some False \<longrightarrow> found_indices s = [])
         \<and> (\<forall>found pattern_len. \<exists>line. status_text (Some s) found pattern_len = Inr line)
         \<and> (\<forall>text' pattern' found. \<exists>model. render_visual text' pattern' (Some s) found = Inr model))"
proof -
  obtain trace where run: "naive_search_steps t p = Inr trace"
    using naive_search_steps_total by blast
  have "(match s = Some True \<longrightarrow> found_indices s = [shift s] \<and> found_indices s \<noteq> [])
      \<and> (match s = None \<or> match s = Some False \<longrightarrow> found_indices s = [])
      \<and> (\<forall>found pattern_len. \<exists>line. status_text (Some s) found pattern_len = Inr line)
      \<and> (\<forall>text' pattern' found. \<exists>model. render_visual text' pattern' (Some s) found = Inr model)"
    if "s \<in> set trace" for s
  proof -
    from found_indices_generated [OF run that]
    have fi: "(match s = Some True \<and> found_indices s = [shift s])
         \<or> (match s \<noteq> Some True \<and> found_indices s = [])" .
    have "\<exists>line. status_text (Some s) found pattern_len = Inr line" for found pattern_len
      using fi by (auto simp: status_text_def py_index_first split: option.splits bool.splits)
    then show ?thesis
      using fi render_visual_total by auto
  qed
  with run show ?thesis by blast
qed

theorem generated_found_indices_safe_witness:
  "\<exists>trace. naive_search_steps ''A'' ''A'' = Inr trace
     \<and> trace = [pending_step 0 0, full_match_step 0 1]
     \<and> match (full_match_step 0 1) = Some True
     \<and> found_indices (full_match_step 0 1) = [shift (full_match_step 0 1)]
     \<and> match (pending_step 0 0) = None
     \<and> found_indices (pending_step 0 0) = []
     \<and> (\<exists>line. status_text (Some (full_match_step 0 1)) [0] 1 = Inr line)
     \<and> (\<exists>model. render_visual ''A'' ''A'' (Some (full_match_step 0 1)) [0] = Inr model)"
proof -
  from generated_found_indices_safe [of "''A''" "''A''"]
  obtain trace where
    run: "naive_search_steps ''A'' ''A'' = Inr trace" and
    all: "\<And>s. s \<in> set trace \<Longrightarrow>
           (match s = Some True \<longrightarrow> found_indices s = [shift s] \<and> found_indices s \<noteq> [])
         \<and> (match s = None \<or> match s = Some False \<longrightarrow> found_indices s = [])
         \<and> (\<forall>found pattern_len. \<exists>line. status_text (Some s) found pattern_len = Inr line)
         \<and> (\<forall>(text' :: string) pattern' found.
               \<exists>model. render_visual text' pattern' (Some s) found = Inr model)"
    by blast
  have trace: "trace = [pending_step 0 0, full_match_step 0 1]"
    using run by (simp add: naive_search_steps_A_A)
  have m1: "match (full_match_step 0 1) = Some True" and m0: "match (pending_step 0 0) = None"
    by (simp_all add: full_match_step_def pending_step_def)
  have "full_match_step 0 1 \<in> set trace" "pending_step 0 0 \<in> set trace"
    unfolding trace by simp_all
  from all [OF this(1)] all [OF this(2)] m1 m0 have
    "found_indices (full_match_step 0 1) = [shift (full_match_step 0 1)]"
    "found_indices (pending_step 0 0) = []"
    "\<exists>line. status_text (Some (full_match_step 0 1)) [0] 1 = Inr line"
    "\<exists>model. render_visual ''A'' ''A'' (Some (full_match_step 0 1)) [0] = Inr model"
    by blast+
  with m1 m0 run trace show ?thesis
    by (intro exI [of _ trace] conjI)
qed

subsection \<open>Rejected inputs\<close>

text \<open>
  C5. For every text and pattern with an empty pattern, or with a text shorter than the
  pattern, \<^verbatim>\<open>naive_search_steps\<close> returns the empty sequence.
\<close>

theorem naive_search_steps_invalid_empty:
  "length pattern = 0 \<or> length text < length pattern \<Longrightarrow>
   naive_search_steps text pattern = Inr []"
  by (auto simp: naive_search_steps_def)

theorem naive_search_steps_invalid_empty_witness:
  "(length ('''' :: string) = 0 \<or> length ''ab'' < length ('''' :: string))
   \<and> naive_search_steps ''ab'' '''' = Inr []
   \<and> (length ''abc'' = 0 \<or> length ''ab'' < length ''abc'') \<and> naive_search_steps ''ab'' ''abc'' = Inr []"
  using naive_search_steps_invalid_empty [of "''''" "''ab''"]
        naive_search_steps_invalid_empty [of "''abc''" "''ab''"]
  by simp

section \<open>Properties of the session\<close>

subsection \<open>Starting a search\<close>

text \<open>
  C6. When Start Search is pressed with an empty text, an empty pattern or a pattern
  longer than the text, the command is rejected with a descriptive error message and the
  session is left unchanged: steps, step index, found indices, started and complete keep
  their values, so a session that was not started stays so.
\<close>

theorem start_search_rejects_invalid:
  "text_input s = [] \<or> pattern_input s = [] \<or> length (pattern_input s) > length (text_input s) \<Longrightarrow>
   start_search s
     = Inr (Some (if text_input s = [] \<or> pattern_input s = []
                  then ''Text and Pattern cannot be empty.''
                  else ''Pattern cannot be longer than the text.''), s)"
  by (auto simp: start_search_def Let_def)


theorem start_search_rejects_invalid_witness:
  "(text_input 
      \<lparr>text_input = ''AB'', pattern_input = ''ABC'', steps = [], step_idx = None,
        session_found_indices = [], started = False, complete = False\<rparr> = []
      \<or> pattern_input 
      \<lparr>text_input = ''AB'', pattern_input = ''ABC'', steps = [], step_idx = None,
        session_found_indices = [], started = False, complete = False\<rparr> = []
      \<or> length (pattern_input 
      \<lparr>text_input = ''AB'', pattern_input = ''ABC'', steps = [], step_idx = None,
        session_found_indices = [], started = False, complete = False\<rparr>) > length (text_input 
      \<lparr>text_input = ''AB'', pattern_input = ''ABC'', steps = [], step_idx = None,
        session_found_indices = [], started = False, complete = False\<rparr>))
   \<and> start_search 
      \<lparr>text_input = ''AB'', pattern_input = ''ABC'', steps = [], step_idx = None,
        session_found_indices = [], started = False, complete = False\<rparr>
       = Inr (Some ''Pattern cannot be longer than the text.'', 
      \<lparr>text_input = ''AB'', pattern_input = ''ABC'', steps = [], step_idx = None,
        session_found_indices = [], started = False, complete = False\<rparr>)"
  using start_search_rejects_invalid [of "
      \<lparr>text_input = ''AB'', pattern_input = ''ABC'', steps = [], step_idx = None,
        session_found_indices = [], started = False, complete = False\<rparr>"]
  by simp

subsection \<open>Walking the steps\<close>

lemma full_match_steps_single:
  "concat (map found_indices (full_match_steps [st]))
     = (if match st = Some True then found_indices st else [])"
  by (simp add: full_match_steps_def)

lemma advance_step:
  assumes "started s" and "\<not> complete s" and "step_idx s = Some (int j - 1)"
    and "j < length (steps s)"
  shows "advance s
     = Inr (s\<lparr>step_idx := Some (int j),
              session_found_indices :=
                session_found_indices s
                  @ concat (map found_indices (full_match_steps [steps s ! j]))\<rparr>)"
proof -
  have idx: "py_index (steps s) (int j - 1 + 1) = Inr (steps s ! j)"
    using assms(4) by (simp add: py_index_nat)
  have lt: "int j - 1 < int (length (steps s)) - 1"
    using assms(4) by simp
  show ?thesis
    using assms(1-3) lt idx
    by (simp add: advance_def disabled_next_def next_step_def full_match_steps_single)
qed

lemma advances_run:
  "started s \<Longrightarrow> \<not> complete s \<Longrightarrow> step_idx s = Some (int j - 1) \<Longrightarrow>
   j + k \<le> length (steps s) \<Longrightarrow>
   advances k s
     = Inr (s\<lparr>step_idx := Some (int (j + k) - 1),
              session_found_indices :=
                session_found_indices s
                  @ concat (map found_indices (full_match_steps (take k (drop j (steps s)))))\<rparr>)"
proof (induction k arbitrary: s j)
  case 0
  then show ?case
    by (simp add: full_match_steps_def)
next
  case (Suc k)
  let ?s1 = "s\<lparr>step_idx := Some (int j),
              session_found_indices :=
                session_found_indices s
                  @ concat (map found_indices (full_match_steps [steps s ! j]))\<rparr>"
  have j: "j < length (steps s)"
    using Suc.prems(4) by simp
  have a: "advance s = Inr ?s1"
    using Suc.prems(1-3) j by (rule advance_step)
  have "advances k ?s1
     = Inr (?s1\<lparr>step_idx := Some (int (Suc j + k) - 1),
              session_found_indices :=
                session_found_indices ?s1
                  @ concat (map found_indices (full_match_steps (take k (drop (Suc j) (steps ?s1)))))\<rparr>)"
    using Suc.prems by (intro Suc.IH) simp_all
  moreover have "take (Suc k) (drop j (steps s)) = steps s ! j # take k (drop (Suc j) (steps s))"
    using j by (simp add: Cons_nth_drop_Suc [symmetric])
  then have "full_match_steps (take (Suc k) (drop j (steps s)))
      = full_match_steps [steps s ! j] @ full_match_steps (take k (drop (Suc j) (steps s)))"
    by (simp add: full_match_steps_def)
  ultimately show ?case
    using a by simp
qed

text \<open>
  C4. For every session started by Start Search, after \<open>k\<close> presses of Next Step from
  the initial cursor position, with \<open>k \<le> len(steps)\<close>, the cursor is \<open>k - 1\<close>; after
  \<open>len(steps)\<close> presses the found indices of the session are the found indices carried
  by the FullMatch steps of the generated sequence, in the order of the sequence.
\<close>

theorem walker_cursor_and_found:
  assumes "start_search s0 = Inr (None, s)" and "k \<le> length (steps s)"
  shows "naive_search_steps (text_input s0) (pattern_input s0) = Inr (steps s)
     \<and> step_idx s = Some (- 1)
     \<and> (\<exists>s'. advances k s = Inr s'
            \<and> step_idx s' = Some (int k - 1)
            \<and> (k = length (steps s) \<longrightarrow>
                 session_found_indices s'
                   = concat (map found_indices (full_match_steps (steps s)))))"
proof -
  from assms(1) have
    gen: "naive_search_steps (text_input s0) (pattern_input s0) = Inr (steps s)" and
    init: "step_idx s = Some (int 0 - 1)" "started s" "\<not> complete s"
      "session_found_indices s = []"
    by (auto simp: start_search_def Let_def split: if_splits sum.splits)
  from advances_run [OF init(2,3,1), of k] assms(2)
  have "advances k s
     = Inr (s\<lparr>step_idx := Some (int k - 1),
              session_found_indices :=
                concat (map found_indices (full_match_steps (take k (steps s))))\<rparr>)"
    using init(4) by simp
  then show ?thesis
    using gen init(1) by simp
qed


theorem walker_cursor_and_found_witness:
  "start_search
      \<lparr>text_input = ''A'', pattern_input = ''A'', steps = [], step_idx = None,
        session_found_indices = [], started = False, complete = False\<rparr>
     = Inr (None,
      \<lparr>text_input = ''A'', pattern_input = ''A'',
        steps = [pending_step 0 0, full_match_step 0 1], step_idx = Some (- 1),
        session_found_indices = [], started = True, complete = False\<rparr>)
   \<and> 2 \<le> length (steps
      \<lparr>text_input = ''A'', pattern_input = ''A'',
        steps = [pending_step 0 0, full_match_step 0 1], step_idx = Some (- 1),
        session_found_indices = [], started = True, complete = False\<rparr>)
   \<and> (\<exists>s'. advances 2
      \<lparr>text_input = ''A'', pattern_input = ''A'',
        steps = [pending_step 0 0, full_match_step 0 1], step_idx = Some (- 1),
        session_found_indices = [], started = True, complete = False\<rparr> = Inr s'
        \<and> step_idx s' = Some 1 \<and> session_found_indices s' = [0])"
proof -
  let ?a = "\<lparr>text_input = ''A'', pattern_input = ''A'', steps = [], step_idx = None,
        session_found_indices = [], started = False, complete = False\<rparr>"
  let ?b = "\<lparr>text_input = ''A'', pattern_input = ''A'',
        steps = [pending_step 0 0, full_match_step 0 1], step_idx = Some (- 1),
        session_found_indices = [], started = True, complete = False\<rparr>"
  have h1: "start_search ?a = Inr (None, ?b)"
    by (simp add: start_search_def naive_search_steps_A_A Let_def)
  have h2: "2 \<le> length (steps ?b)"
    by simp
  from walker_cursor_and_found [OF h1 h2]
  obtain s' where
    "advances 2 ?b = Inr s'" "step_idx s' = Some (int 2 - 1)"
    "2 = length (steps ?b) \<longrightarrow>
       session_found_indices s' = concat (map found_indices (full_match_steps (steps ?b)))"
    by blast
  then have "advances 2 ?b = Inr s' \<and> step_idx s' = Some 1 \<and> session_found_indices s' = [0]"
    by (simp add: full_match_steps_def pending_step_def full_match_step_def)
  with h1 h2 show ?thesis
    by blast
qed


subsection \<open>Completion\<close>

lemma next_step_last:
  "step_idx s = Some (int (length (steps s)) - 1) \<Longrightarrow> next_step s = Inr (s\<lparr>complete := True\<rparr>)"
  by (simp add: next_step_def)

text \<open>
  C7. When the cursor of a started session is on the last step, one more press of Next
  Step completes the session without moving the cursor or changing the found indices.
  The summary is shown only in a complete session: before that press there is none,
  after it the summary lists the found indices, or says that the pattern was not found
  when there are none.
\<close>

theorem advance_past_last_step_completes:
  assumes "started s" and "step_idx s = Some (int (length (steps s)) - 1)"
  shows "advance s = Inr (s\<lparr>complete := True\<rparr>)
     \<and> step_idx (s\<lparr>complete := True\<rparr>) = step_idx s
     \<and> session_found_indices (s\<lparr>complete := True\<rparr>) = session_found_indices s
     \<and> (\<not> complete s \<longrightarrow> completion_summary s = None)
     \<and> completion_summary (s\<lparr>complete := True\<rparr>)
         = Some (if session_found_indices s \<noteq> []
                 then Found_at_indices (session_found_indices s) else Not_found)
     \<and> (\<forall>s' :: 'c session. completion_summary s' \<noteq> None \<longrightarrow> complete s')"
proof -
  have "advance s = Inr (s\<lparr>complete := True\<rparr>)"
  proof (cases "complete s")
    case True
    then have "s\<lparr>complete := True\<rparr> = s" by simp
    then show ?thesis
      using True by (simp add: advance_def disabled_next_def)
  next
    case False
    then show ?thesis
      using assms by (simp add: advance_def disabled_next_def next_step_last)
  qed
  moreover have "\<not> complete s \<longrightarrow> completion_summary s = None"
    using assms by (simp add: completion_summary_def)
  moreover have "completion_summary (s\<lparr>complete := True\<rparr>)
         = Some (if session_found_indices s \<noteq> []
                 then Found_at_indices (session_found_indices s) else Not_found)"
    using assms by (simp add: completion_summary_def)
  moreover have "\<forall>s' :: 'c session. completion_summary s' \<noteq> None \<longrightarrow> complete s'"
    by (auto simp: completion_summary_def split: option.splits if_splits)
  ultimately show ?thesis by simp
qed



theorem advance_past_last_step_completes_witness:
  "started \<lparr>text_input = ''A'', pattern_input = ''A'',
        steps = [pending_step 0 0, full_match_step 0 1], step_idx = Some 1,
        session_found_indices = [0], started = True, complete = False\<rparr>
   \<and> step_idx \<lparr>text_input = ''A'', pattern_input = ''A'',
        steps = [pending_step 0 0, full_match_step 0 1], step_idx = Some 1,
        session_found_indices = [0], started = True, complete = False\<rparr>
       = Some (int (length [pending_step 0 0, full_match_step 0 1]) - 1)
   \<and> advance \<lparr>text_input = ''A'', pattern_input = ''A'',
        steps = [pending_step 0 0, full_match_step 0 1], step_idx = Some 1,
        session_found_indices = [0], started = True, complete = False\<rparr>
       = Inr \<lparr>text_input = ''A'', pattern_input = ''A'',
        steps = [pending_step 0 0, full_match_step 0 1], step_idx = Some 1,
        session_found_indices = [0], started = True, complete = True\<rparr>
   \<and> completion_summary \<lparr>text_input = ''A'', pattern_input = ''A'',
        steps = [pending_step 0 0, full_match_step 0 1], step_idx = Some 1,
        session_found_indices = [0], started = True, complete = False\<rparr> = None
   \<and> completion_summary \<lparr>text_input = ''A'', pattern_input = ''A'',
        steps = [pending_step 0 0, full_match_step 0 1], step_idx = Some 1,
        session_found_indices = [0], started = True, complete = True\<rparr>
       = Some (Found_at_indices [0])
   \<and> complete \<lparr>text_input = ''A'', pattern_input = ''A'',
        steps = [pending_step 0 0, full_match_step 0 1], step_idx = Some 1,
        session_found_indices = [0], started = True, complete = True\<rparr>"
  using advance_past_last_step_completes [of "\<lparr>text_input = ''A'', pattern_input = ''A'',
        steps = [pending_step 0 0, full_match_step 0 1], step_idx = Some 1,
        session_found_indices = [0], started = True, complete = False\<rparr>"]
  by auto

section \<open>Properties of the rendering\<close>

lemma enumerate_as_map:
  "enumerate 0 xs = map (\<lambda>i. (i, xs ! i)) [0..<length xs]"
  by (rule nth_equalityI) (simp_all add: nth_enumerate_eq)

lemma map_filter_enumerate:
  "map (\<lambda>(i, ch). F i ch) (filter (\<lambda>(i, ch). P i) (enumerate 0 xs))
     = map (\<lambda>i. F i (xs ! i)) (filter P [0..<length xs])"
  by (simp add: enumerate_as_map filter_map o_def)

lemma map_enumerate:
  "map (\<lambda>(i, ch). F i ch) (enumerate 0 xs) = map (\<lambda>i. F i (xs ! i)) [0..<length xs]"
  by (simp add: enumerate_as_map o_def)

lemma offset_range_iff:
  "int k \<in> (\<lambda>j. f + int j) ` {0..<m} \<longleftrightarrow> f \<le> int k \<and> int k < f + int m"
proof
  assume "f \<le> int k \<and> int k < f + int m"
  then have mem: "nat (int k - f) \<in> {0..<m}" and eq: "int k = f + int (nat (int k - f))"
    by auto
  show "int k \<in> (\<lambda>j. f + int j) ` {0..<m}"
    by (rule image_eqI [where x = "nat (int k - f)"]) (rule eq, rule mem)
qed auto

lemma previously_found_iff:
  "int k \<in> previously_found_positions m found \<longleftrightarrow> in_found_match m found k"
  unfolding previously_found_positions_def in_found_match_def
  by (simp only: UN_iff offset_range_iff)

lemma current_match_iff:
  assumes "current_match_positions m (Some True) (found_indices st) = Inr cm"
  shows "int k \<in> cm \<longleftrightarrow> in_reported_match m st k"
proof (cases "found_indices st")
  case Nil
  then show ?thesis
    using assms by (auto simp: current_match_positions_def in_reported_match_def)
next
  case (Cons f fs)
  then have "cm = (\<lambda>j. f + int j) ` {0..<m}"
    using assms by (auto simp: current_match_positions_def py_index_def)
  then show ?thesis
    using Cons by (simp only: offset_range_iff in_reported_match_def list.case)
qed

lemma pattern_box_classes_highlight:
  "pattern_box_classes (match st) (Some (pattern_idx st)) i
     = highlight_classes (pattern_highlight st i)"
proof (cases "match st")
  case None
  then show ?thesis
    by (simp add: pattern_box_classes_def pattern_highlight_def outcome_def Let_def)
next
  case (Some b)
  then show ?thesis
    by (cases b)
       (simp_all add: pattern_box_classes_def pattern_highlight_def outcome_def Let_def)
qed

lemma text_box_classes_highlight:
  assumes "current_match_positions m (match st) (found_indices st) = Inr cm"
  shows "text_box_classes (previously_found_positions m found) cm (match st)
           (Some (text_idx st)) k
         = highlight_classes (text_highlight m found st k)"
proof (cases "match st")
  case None
  then show ?thesis
    by (auto simp: text_box_classes_def text_highlight_def outcome_def previously_found_iff)
next
  case (Some b)
  show ?thesis
  proof (cases b)
    case True
    then have "int k \<in> cm \<longleftrightarrow> in_reported_match m st k"
      using assms Some current_match_iff by simp
    then show ?thesis
      using Some True
      by (auto simp: text_box_classes_def text_highlight_def outcome_def previously_found_iff)
  next
    case False
    then show ?thesis
      using Some
      by (auto simp: text_box_classes_def text_highlight_def outcome_def previously_found_iff)
  qed
qed

lemma inj_highlight_classes: "inj highlight_classes"
proof (rule injI)
  fix a b assume "highlight_classes a = highlight_classes b"
  then show "a = b"
    by (cases a; cases b) simp_all
qed

text \<open>
  C8. For every render call with a step present: a pattern box is drawn only when its
  column, shift plus offset, lies within the text's columns; it is highlighted Comparing
  on a Pending step and Mismatch on a Mismatch step when its offset is the step's pattern
  index, and Match on a FullMatch step whatever its offset. A text box inside a
  previously found match is highlighted Found, except that on a FullMatch step the boxes
  of the match just reported are highlighted Match, and that the box at the step's text
  index is highlighted Comparing on a Pending step and Mismatch on a Mismatch step. Every
  other box has the default style, and each box carries exactly one highlight, since
  distinct highlights have distinct class lists.
\<close>

theorem render_visual_highlighting:
  "render_visual text pattern (Some st) found
     = Inr (map (\<lambda>i. \<lparr>grid_row = 2, grid_column = shift st + int i + 1,
                       classes = highlight_classes (pattern_highlight st i),
                       box_char = pattern ! i\<rparr>)
                (filter (\<lambda>i. 0 \<le> shift st + int i \<and> shift st + int i < int (length text))
                        [0..<length pattern]),
            map (\<lambda>k. \<lparr>grid_row = 3, grid_column = int k + 1,
                       classes = highlight_classes (text_highlight (length pattern) found st k),
                       box_char = text ! k\<rparr>)
                [0..<length text])
   \<and> inj highlight_classes"
proof -
  obtain cm where cm: "current_match_positions (length pattern) (match st) (found_indices st) = Inr cm"
    using current_match_positions_total by blast
  have shown: "filter (\<lambda>(i, ch). 1 \<le> shift st + int i + 1
                            \<and> shift st + int i + 1 \<le> int (length text)) xs
      = filter (\<lambda>(i, ch). 0 \<le> shift st + int i \<and> shift st + int i < int (length text)) xs"
    for xs :: "(nat \<times> 'a) list"
    by (rule filter_cong) auto
  have row2: "map (\<lambda>(i, ch). \<lparr>grid_row = 2, grid_column = shift st + int i + 1,
                       classes = pattern_box_classes (match st) (Some (pattern_idx st)) i,
                       box_char = ch\<rparr>)
                  (filter (\<lambda>(i, ch). 1 \<le> shift st + int i + 1
                                     \<and> shift st + int i + 1 \<le> int (length text))
                          (enumerate 0 pattern))
      = map (\<lambda>i. \<lparr>grid_row = 2, grid_column = shift st + int i + 1,
                       classes = highlight_classes (pattern_highlight st i),
                       box_char = pattern ! i\<rparr>)
            (filter (\<lambda>i. 0 \<le> shift st + int i \<and> shift st + int i < int (length text))
                    [0..<length pattern])"
    unfolding shown pattern_box_classes_highlight
    by (rule map_filter_enumerate)
  have row3: "map (\<lambda>(i, ch). \<lparr>grid_row = 3, grid_column = int i + 1,
                       classes = text_box_classes
                         (previously_found_positions (length pattern) found) cm (match st)
                         (Some (text_idx st)) i,
                       box_char = ch\<rparr>)
                  (enumerate 0 text)
      = map (\<lambda>k. \<lparr>grid_row = 3, grid_column = int k + 1,
                       classes = highlight_classes (text_highlight (length pattern) found st k),
                       box_char = text ! k\<rparr>)
            [0..<length text]"
    unfolding text_box_classes_highlight [OF cm]
    by (rule map_enumerate)
  have "render_visual text pattern (Some st) found
     = Inr (map (\<lambda>(i, ch). \<lparr>grid_row = 2, grid_column = shift st + int i + 1,
                       classes = pattern_box_classes (match st) (Some (pattern_idx st)) i,
                       box_char = ch\<rparr>)
                  (filter (\<lambda>(i, ch). 1 \<le> shift st + int i + 1
                                     \<and> shift st + int i + 1 \<le> int (length text))
                          (enumerate 0 pattern)),
            map (\<lambda>(i, ch). \<lparr>grid_row = 3, grid_column = int i + 1,
                       classes = text_box_classes
                         (previously_found_positions (length pattern) found) cm (match st)
                         (Some (text_idx st)) i,
                       box_char = ch\<rparr>)
                  (enumerate 0 text))"
    unfolding render_visual_def Let_def option.case cm sum.case ..
  then show ?thesis
    unfolding row2 row3 using inj_highlight_classes by (rule conjI)
qed


theorem render_visual_highlighting_witness:
  "(\<exists>prow trow.
      render_visual ''AAAA'' ''AA'' (Some (full_match_step 1 2)) [0, 1] = Inr (prow, trow)
      \<and> map grid_column prow = [2, 3]
      \<and> map classes prow = [[''char'', ''match''], [''char'', ''match'']]
      \<and> map classes trow
          = [[''char'', ''found''], [''char'', ''match''], [''char'', ''match''], [''char'']])
   \<and> (\<exists>prow trow.
      render_visual ''AAAA'' ''AA'' (Some (pending_step 1 0)) [0] = Inr (prow, trow)
      \<and> map grid_column prow = [2, 3]
      \<and> map classes prow = [[''char'', ''comparing''], [''char'']]
      \<and> map classes trow
          = [[''char'', ''found''], [''char'', ''comparing''], [''char''], [''char'']])"
  using render_visual_highlighting [of "''AAAA''" "''AA''" "full_match_step 1 2" "[0, 1]"]
        render_visual_highlighting [of "''AAAA''" "''AA''" "pending_step 1 0" "[0]"]
  by (simp add: full_match_step_def pending_step_def pattern_highlight_def text_highlight_def
        outcome_def in_found_match_def in_reported_match_def upt_rec)


end
